theory Spec2Isabelle
  imports Main "HOL-Library.Multiset"
begin

section \<open>Values and errors\<close>

text \<open>
  The scraper of \<^verbatim>\<open>get_birthday.py\<close> moves three kinds of Python value around: the
  float \<^verbatim>\<open>np.nan\<close>, numbers (ages and athlete ids; an age read by \<^verbatim>\<open>int\<close> is a Python
  integer, a number loaded from the CSV file is an integral float, and both compare
  equal when they denote the same number) and strings (the sentinel \<^verbatim>\<open>"DELETED"\<close>).
  Strings are ASCII texts; characters beyond ASCII are outside this model.
\<close>

datatype pyval = NaN | Num int | Str string

datatype error = ValueError | IndexError | KeyError | WebDriverError | TextCell

text \<open>\<^verbatim>\<open>pd.isna\<close> on a scalar.\<close>

fun isna :: "pyval \<Rightarrow> bool" where
  "isna NaN = True"
| "isna _ = False"

section \<open>The pattern \<^verbatim>\<open>Age:\s*(\d+)\<close> and \<^verbatim>\<open>extract_first\<close>\<close>

text \<open>
  \<^verbatim>\<open>pat_age_compiled = re.compile(r'Age:\s*(\d+)', flags=re.DOTALL | re.IGNORECASE)\<close>.
  On ASCII text \<^verbatim>\<open>\s\<close> is the six characters of \<^verbatim>\<open>[ \t\n\r\f\v]\<close> and the four separators
  0x1C to 0x1F, and \<^verbatim>\<open>\d\<close> is \<^verbatim>\<open>[0-9]\<close>. Whitespace and digits are disjoint, so the greedy
  \<^verbatim>\<open>\s*\<close> never gains a match by giving characters back: the pattern matches at a
  position exactly when the literal (in either case) is followed by a maximal run of
  whitespace and then at least one digit, and group 1 is the maximal run of digits.
\<close>

definition is_space :: "char \<Rightarrow> bool" where
  "is_space c = (let n = (of_char c :: nat) in n = 32 \<or> (9 \<le> n \<and> n \<le> 13) \<or> (28 \<le> n \<and> n \<le> 31))"

definition is_digit :: "char \<Rightarrow> bool" where
  "is_digit c = (let n = (of_char c :: nat) in 48 \<le> n \<and> n \<le> 57)"

definition digit_val :: "char \<Rightarrow> int" where
  "digit_val c = int (of_char c) - 48"

text \<open>The pattern tried at the start of the text: group 1 of the match, if there is one.\<close>

fun match_here :: "string \<Rightarrow> string option" where
  "match_here (a # g # e # c # rest) =
     (if (a = CHR ''A'' \<or> a = CHR ''a'') \<and> (g = CHR ''g'' \<or> g = CHR ''G'') \<and>
         (e = CHR ''e'' \<or> e = CHR ''E'') \<and> c = CHR '':''
      then (let ds = takeWhile is_digit (dropWhile is_space rest)
            in if ds = [] then None else Some ds)
      else None)"
| "match_here _ = None"

text \<open>\<^verbatim>\<open>pat.search(text)\<close>: the leftmost position where the pattern matches.\<close>

fun pat_age_compiled :: "string \<Rightarrow> string option" where
  "pat_age_compiled [] = None"
| "pat_age_compiled (c # cs) =
     (case match_here (c # cs) of Some ds \<Rightarrow> Some ds | None \<Rightarrow> pat_age_compiled cs)"

text \<open>
  \<^verbatim>\<open>int(val)\<close> on a string: the number a non-empty string of digits spells, and
  \<^verbatim>\<open>ValueError\<close> otherwise. (Python also reads a sign, blanks around the number and
  underscores between digits; group 1 of the pattern holds digits only.)
\<close>

definition py_int :: "string \<Rightarrow> error + int" where
  "py_int s = (if s \<noteq> [] \<and> list_all is_digit s
               then Inr (foldl (\<lambda>a c. 10 * a + digit_val c) 0 s) else Inl ValueError)"

text \<open>
  \<^verbatim>\<open>
  def extract_first(pat, text, cast=None):
      m = pat.search(text)
      if not m: return np.nan
      val = m.group(1)
      if cast:
          try:
              return cast(val)
          except:
              return np.nan
      return val
  \<close>
\<close>

definition extract_first ::
  "(string \<Rightarrow> string option) \<Rightarrow> string \<Rightarrow> (string \<Rightarrow> error + int) option \<Rightarrow> pyval" where
  "extract_first pat text cast =
     (case pat text of
        None \<Rightarrow> NaN
      | Some val \<Rightarrow>
          (case cast of
             None \<Rightarrow> Str val
           | Some f \<Rightarrow> (case f val of Inr v \<Rightarrow> Num v | Inl _ \<Rightarrow> NaN)))"

section \<open>\<^verbatim>\<open>get_age_with_retry\<close>\<close>

text \<open>
  What one try can meet, in the order the try body runs: \<^verbatim>\<open>driver.get\<close> raises;
  \<^verbatim>\<open>has_error_toast\<close> raises something other than the \<^verbatim>\<open>TimeoutException\<close> it handles;
  it returns \<^verbatim>\<open>True\<close>; reading \<^verbatim>\<open>driver.page_source\<close> raises; the page source is read.
  The browser is the environment: a function from the number of the try to what that
  try meets.
\<close>

datatype page = GetFails | ToastFails | Toast | SourceFails | Html string

text \<open>
  The table \<^verbatim>\<open>ath_age\<close> is a pandas \<^verbatim>\<open>DataFrame\<close>: column names, and rows of cells
  addressed by position. Its index is the default \<^verbatim>\<open>RangeIndex\<close> after \<^verbatim>\<open>read_csv\<close> and
  after every \<^verbatim>\<open>reset_index(drop=True)\<close>, so a row's label is its position in \<^verbatim>\<open>rows\<close>.
\<close>

record frame =
  columns :: "string list"
  rows :: "pyval list list"

text \<open>
  The effects of the program, in order. Of \<^verbatim>\<open>get_age_with_retry\<close>: page loads, the wait
  for the popup, the message and the five second penalty of a deleted profile, the
  settle pause (\<^verbatim>\<open>1.5 + random.uniform(0.2, 0.5)\<close> seconds, kept abstract), reading the
  page source, and the call of \<^verbatim>\<open>extract_first\<close> on it. Of the worker: \<^verbatim>\<open>driver.quit()\<close>.
  Of \<^verbatim>\<open>run_scraping_cycle\<close>: its messages and \<^verbatim>\<open>to_csv\<close>.
\<close>

datatype event =
    DriverGet string int
  | HasErrorToast
  | PrintDeleted string int
  | Sleep nat
  | SleepSettle
  | PageSource
  | ExtractFirst string
  | DriverQuit
  | PrintNotFound
  | PrintAllCaptured nat
  | PrintScraping nat nat
  | PrintRemoving nat
  | ToCsv frame
  | PrintComplete nat

text \<open>
  The url \<^verbatim>\<open>f"https://{federation}.results.info/athlete/{int(ath_id_val)}"\<close> is kept as
  its two parameters, the federation and the athlete id.

  \<^verbatim>\<open>
  for attempt in range(1, max_tries + 1):
      try:
          driver.get(url)
          if has_error_toast(driver):
              print(...); time.sleep(5)
              return "DELETED"
          time.sleep(1.5 + random.uniform(0.2, 0.5))
          html = driver.page_source
          age = extract_first(pat_age_compiled, html, cast=int)
          if not pd.isna(age) and 3 <= age <= 200:
              return age
      except Exception:
          pass
  return np.nan
  \<close>
  The loop runs over the list of try numbers; the result is the returned value and the
  effects performed.
\<close>

fun in_range :: "pyval \<Rightarrow> bool" where
  "in_range (Num a) = (3 \<le> a \<and> a \<le> 200)"
| "in_range _ = False"

fun retry_loop :: "(nat \<Rightarrow> page) \<Rightarrow> string \<Rightarrow> int \<Rightarrow> nat list \<Rightarrow> pyval \<times> event list" where
  "retry_loop driver fed aid [] = (NaN, [])"
| "retry_loop driver fed aid (attempt # rest) =
     (case driver attempt of
        GetFails \<Rightarrow>
          (let (r, evs) = retry_loop driver fed aid rest in (r, DriverGet fed aid # evs))
      | ToastFails \<Rightarrow>
          (let (r, evs) = retry_loop driver fed aid rest
           in (r, DriverGet fed aid # HasErrorToast # evs))
      | Toast \<Rightarrow>
          (Str ''DELETED'', [DriverGet fed aid, HasErrorToast, PrintDeleted fed aid, Sleep 5])
      | SourceFails \<Rightarrow>
          (let (r, evs) = retry_loop driver fed aid rest
           in (r, DriverGet fed aid # HasErrorToast # SleepSettle # PageSource # evs))
      | Html html \<Rightarrow>
          (let age = extract_first pat_age_compiled html (Some py_int);
               here = [DriverGet fed aid, HasErrorToast, SleepSettle, PageSource, ExtractFirst html]
           in if \<not> isna age \<and> in_range age then (age, here)
              else (let (r, evs) = retry_loop driver fed aid rest in (r, here @ evs))))"

definition get_age_with_retry :: "(nat \<Rightarrow> page) \<Rightarrow> string \<Rightarrow> int \<Rightarrow> int \<Rightarrow> pyval \<times> event list" where
  "get_age_with_retry driver fed aid max_tries =
     retry_loop driver fed aid [1 ..< nat (max_tries + 1)]"

section \<open>The table: today's column and the backlog\<close>

text \<open>
  \<^verbatim>\<open>date.today().strftime("%m_%d")\<close>: month and day, two digits each.
\<close>

record pydate =
  month :: nat
  day :: nat

definition two_digits :: "nat \<Rightarrow> string" where
  "two_digits n = [char_of (48 + n div 10 mod 10), char_of (48 + n mod 10)]"

definition today_str :: "pydate \<Rightarrow> string" where
  "today_str d = two_digits (month d) @ ''_'' @ two_digits (day d)"

text \<open>The position of a column name, as \<^verbatim>\<open>ath_age[name]\<close> finds it.\<close>

fun col_index :: "string list \<Rightarrow> string \<Rightarrow> nat option" where
  "col_index [] name = None"
| "col_index (c # cs) name = (if c = name then Some 0 else map_option Suc (col_index cs name))"

text \<open>
  \<^verbatim>\<open>
  if today_str not in ath_age.columns:
      ath_age[today_str] = np.nan
  \<close>
\<close>

definition ensure_today :: "frame \<Rightarrow> string \<Rightarrow> frame" where
  "ensure_today ath_age t =
     (if t \<in> set (columns ath_age) then ath_age
      else ath_age\<lparr>columns := columns ath_age @ [t], rows := map (\<lambda>r. r @ [NaN]) (rows ath_age)\<rparr>)"

text \<open>
  Elementwise \<^verbatim>\<open>==\<close> (\<^verbatim>\<open>Series.eq\<close>, and \<^verbatim>\<open>age == "DELETED"\<close>): \<^verbatim>\<open>NaN\<close> equals nothing, itself
  included, and a number never equals a string.
\<close>

fun py_eq :: "pyval \<Rightarrow> pyval \<Rightarrow> bool" where
  "py_eq (Num a) (Num b) = (a = b)"
| "py_eq (Str s) (Str t) = (s = t)"
| "py_eq _ _ = False"

text \<open>
  \<^verbatim>\<open>.max(axis=1, skipna=True)\<close> over the cells of one row: the largest number, \<^verbatim>\<open>NaN\<close> when
  every cell is \<^verbatim>\<open>NaN\<close>. The date columns are numeric columns; what pandas does with a
  text cell among them depends on the column types and is not modelled: the run is cut
  off there with \<open>TextCell\<close>.
\<close>

fun nums :: "pyval list \<Rightarrow> int list" where
  "nums [] = []"
| "nums (Num a # cs) = a # nums cs"
| "nums (_ # cs) = nums cs"

fun is_text :: "pyval \<Rightarrow> bool" where
  "is_text (Str s) = True"
| "is_text _ = False"

definition row_max :: "pyval list \<Rightarrow> error + pyval" where
  "row_max cells =
     (if list_ex is_text cells then Inl TextCell
      else (case nums cells of [] \<Rightarrow> Inr NaN | a # as \<Rightarrow> Inr (Num (fold max as a))))"

text \<open>
  \<^verbatim>\<open>
  val = ath_age.iloc[:, 2]
  rowmax = ath_age.iloc[:, 3:].max(axis=1, skipna=True)
  idx_list = ath_age.index[~val.eq(rowmax) & ath_age[today_str].isna()].tolist()
  \<close>
  \<^verbatim>\<open>iloc[:, 2]\<close> raises \<^verbatim>\<open>IndexError\<close> on a table of fewer than three columns; the slice
  \<^verbatim>\<open>iloc[:, 3:]\<close> never raises; \<^verbatim>\<open>ath_age[today_str]\<close> raises \<^verbatim>\<open>KeyError\<close> on a missing column.
\<close>

definition row_selected :: "nat \<Rightarrow> pyval list \<Rightarrow> error + bool" where
  "row_selected ti r =
     (case row_max (drop 3 r) of
        Inl e \<Rightarrow> Inl e
      | Inr rowmax \<Rightarrow> Inr (\<not> py_eq (r ! 2) rowmax \<and> isna (r ! ti)))"

fun select_rows :: "nat \<Rightarrow> nat \<Rightarrow> pyval list list \<Rightarrow> error + nat list" where
  "select_rows ti i [] = Inr []"
| "select_rows ti i (r # rs) =
     (case row_selected ti r of
        Inl e \<Rightarrow> Inl e
      | Inr b \<Rightarrow>
          (case select_rows ti (Suc i) rs of
             Inl e \<Rightarrow> Inl e
           | Inr idx \<Rightarrow> Inr (if b then i # idx else idx)))"

definition backlog :: "frame \<Rightarrow> string \<Rightarrow> error + nat list" where
  "backlog ath_age t =
     (if length (columns ath_age) < 3 then Inl IndexError
      else (case col_index (columns ath_age) t of
              None \<Rightarrow> Inl KeyError
            | Some ti \<Rightarrow> select_rows ti 0 (rows ath_age)))"

section \<open>Chunks\<close>

text \<open>
  \<^verbatim>\<open>
  chunk_size = math.ceil(len(idx_list) / max(1, n_workers))
  chunks = [idx_list[k:k + chunk_size] for k in range(0, len(idx_list), chunk_size)]
  \<close>
  The quotient is a float; its ceiling is the exact one for every list shorter than
  \<open>2 ^ 53\<close>, and the model takes the exact one. \<^verbatim>\<open>range\<close> raises \<^verbatim>\<open>ValueError\<close> on a zero
  step, which is the chunk size of an empty list.
\<close>

definition chunk_size :: "nat \<Rightarrow> int \<Rightarrow> nat" where
  "chunk_size n n_workers = (let w = nat (max 1 n_workers) in (n + w - 1) div w)"

definition range_step :: "nat \<Rightarrow> nat \<Rightarrow> nat list" where
  "range_step n step = map (\<lambda>j. j * step) [0 ..< (n + step - 1) div step]"

definition chunks_of :: "nat list \<Rightarrow> int \<Rightarrow> error + nat list list" where
  "chunks_of idx_list n_workers =
     (let cs = chunk_size (length idx_list) n_workers
      in if cs = 0 then Inl ValueError
         else Inr (map (\<lambda>k. take cs (drop k idx_list)) (range_step (length idx_list) cs)))"

section \<open>The worker\<close>

text \<open>
  \<^verbatim>\<open>
  for ridx in ids_chunk:
      ath_id_val = ath_ids_series.iloc[ridx]
      if pd.isna(ath_id_val):
          results.append((ridx, np.nan))
          continue
      url = f"https://{federation}.results.info/athlete/{int(ath_id_val)}"
      age = get_age_with_retry(driver, url)
      results.append((ridx, age))
  \<close>
  The worker's browser shows, for the row it is asked about, what each try meets.
  \<^verbatim>\<open>iloc\<close> raises \<^verbatim>\<open>IndexError\<close> out of range. The result is the list of pairs and the
  effects of the loop.
\<close>

fun chunk_loop ::
  "(nat \<Rightarrow> nat \<Rightarrow> page) \<Rightarrow> string \<Rightarrow> pyval list \<Rightarrow> nat list \<Rightarrow> error + ((nat \<times> pyval) list \<times> event list)" where
  "chunk_loop driver fed series [] = Inr ([], [])"
| "chunk_loop driver fed series (ridx # rest) =
     (if length series \<le> ridx then Inl IndexError
      else (case series ! ridx of
              NaN \<Rightarrow>
                (case chunk_loop driver fed series rest of
                   Inl e \<Rightarrow> Inl e
                 | Inr (results, evs) \<Rightarrow> Inr ((ridx, NaN) # results, evs))
            | Str s \<Rightarrow> Inl TextCell
            | Num aid \<Rightarrow>
                (let (age, evs1) = get_age_with_retry (driver ridx) fed aid 3
                 in (case chunk_loop driver fed series rest of
                       Inl e \<Rightarrow> Inl e
                     | Inr (results, evs) \<Rightarrow> Inr ((ridx, age) # results, evs1 @ evs)))))"

text \<open>
  \<^verbatim>\<open>_process_chunk_age\<close>: the browser is started (the second start, through the driver
  manager, is tried when the first raises; when both raise the worker raises), the
  chunk is worked through, and the browser is quit whatever happened.
\<close>

definition process_chunk_age ::
  "bool \<Rightarrow> (nat \<Rightarrow> nat \<Rightarrow> page) \<Rightarrow> nat list \<Rightarrow> string \<Rightarrow> pyval list \<Rightarrow>
     error + ((nat \<times> pyval) list \<times> event list)" where
  "process_chunk_age starts driver ids_chunk fed series =
     (if \<not> starts then Inl WebDriverError
      else (case chunk_loop driver fed series ids_chunk of
              Inl e \<Rightarrow> Inl e
            | Inr (results, evs) \<Rightarrow> Inr (results, evs @ [DriverQuit])))"

section \<open>The orchestrator\<close>

text \<open>
  The environment of one run: today's date, the CSV file of the federation (if there is
  one), whether the browser of a chunk starts (by cycle and position of the chunk), and
  what the browser shows (by cycle, row and try).
\<close>

record world =
  today :: pydate
  csv :: "frame option"
  chrome_starts :: "nat \<Rightarrow> nat \<Rightarrow> bool"
  browser :: "nat \<Rightarrow> nat \<Rightarrow> nat \<Rightarrow> page"

text \<open>
  \<^verbatim>\<open>
  with ProcessPoolExecutor(max_workers=n_workers) as ex:
      futures = [ex.submit(_process_chunk_age, ch, federation, ath_age["ath_id"]) for ch in chunks]
      for fut in as_completed(futures):
          cycle_results.extend(fut.result())
  \<close>
  \<^verbatim>\<open>ProcessPoolExecutor\<close> raises \<^verbatim>\<open>ValueError\<close> when \<^verbatim>\<open>max_workers\<close> is zero or negative (its
  documented check), \<^verbatim>\<open>ath_age["ath_id"]\<close> raises \<^verbatim>\<open>KeyError\<close> without such a column, and
  \<^verbatim>\<open>fut.result()\<close> raises what the worker raised. The workers run in separate processes
  and \<^verbatim>\<open>as_completed\<close> yields them as they finish; the model collects the chunks in the
  order of submission.
\<close>

fun submit_all ::
  "(nat \<Rightarrow> bool) \<Rightarrow> (nat \<Rightarrow> nat \<Rightarrow> page) \<Rightarrow> string \<Rightarrow> pyval list \<Rightarrow> nat \<Rightarrow> nat list list \<Rightarrow>
     error + ((nat \<times> pyval) list \<times> event list)" where
  "submit_all starts driver fed series j [] = Inr ([], [])"
| "submit_all starts driver fed series j (ch # chunks) =
     (case process_chunk_age (starts j) driver ch fed series of
        Inl e \<Rightarrow> Inl e
      | Inr (results, evs) \<Rightarrow>
          (case submit_all starts driver fed series (Suc j) chunks of
             Inl e \<Rightarrow> Inl e
           | Inr (cycle_results, evs') \<Rightarrow> Inr (results @ cycle_results, evs @ evs')))"

definition run_pool ::
  "world \<Rightarrow> nat \<Rightarrow> string \<Rightarrow> int \<Rightarrow> frame \<Rightarrow> nat list list \<Rightarrow>
     error + ((nat \<times> pyval) list \<times> event list)" where
  "run_pool w cycle fed n_workers ath_age chunks =
     (if n_workers \<le> 0 then Inl ValueError
      else (case col_index (columns ath_age) ''ath_id'' of
              None \<Rightarrow> Inl KeyError
            | Some ci \<Rightarrow>
                submit_all (chrome_starts w cycle) (browser w cycle) fed
                  (map (\<lambda>r. r ! ci) (rows ath_age)) 0 chunks))"

text \<open>
  \<^verbatim>\<open>
  ids_to_remove = []
  for ridx, age in cycle_results:
      if age == "DELETED":
          ids_to_remove.append(ridx)
      else:
          ath_age.loc[ridx, today_str] = age
  \<close>
  Every \<^verbatim>\<open>ridx\<close> comes from \<^verbatim>\<open>idx_list\<close>, which is drawn from the table's own index, so
  \<^verbatim>\<open>.loc\<close> always finds the row. (On a label that is not in the index pandas would add a
  row; \<open>loc_set\<close> leaves the table as it is there.)
\<close>

definition loc_set :: "frame \<Rightarrow> nat \<Rightarrow> nat \<Rightarrow> pyval \<Rightarrow> frame" where
  "loc_set ath_age ridx ti age =
     ath_age\<lparr>rows := (rows ath_age)[ridx := (rows ath_age ! ridx)[ti := age]]\<rparr>"

fun process_results :: "nat \<Rightarrow> (nat \<times> pyval) list \<Rightarrow> frame \<times> nat list \<Rightarrow> frame \<times> nat list" where
  "process_results ti [] st = st"
| "process_results ti ((ridx, age) # rest) (ath_age, ids_to_remove) =
     (if py_eq age (Str ''DELETED'')
      then process_results ti rest (ath_age, ids_to_remove @ [ridx])
      else process_results ti rest (loc_set ath_age ridx ti age, ids_to_remove))"

text \<open>
  \<^verbatim>\<open>ath_age.drop(index=ids_to_remove).reset_index(drop=True)\<close>: the rows whose label is
  not in the list, relabelled by position.
\<close>

definition drop_index :: "frame \<Rightarrow> nat list \<Rightarrow> frame" where
  "drop_index ath_age ids = ath_age\<lparr>rows := nths (rows ath_age) (- set ids)\<rparr>"

text \<open>
  The loop over the results followed by the removal:
  \<^verbatim>\<open>
  if ids_to_remove:
      print(f"Permanently removing {len(ids_to_remove)} deleted records.")
      ath_age = ath_age.drop(index=ids_to_remove).reset_index(drop=True)
  \<close>
\<close>

definition apply_results :: "nat \<Rightarrow> (nat \<times> pyval) list \<Rightarrow> frame \<Rightarrow> frame \<times> event list" where
  "apply_results ti cycle_results ath_age =
     (let (merged, ids_to_remove) = process_results ti cycle_results (ath_age, [])
      in if ids_to_remove \<noteq> []
         then (drop_index merged ids_to_remove, [PrintRemoving (length ids_to_remove)])
         else (merged, []))"

text \<open>
  One cycle after the check for an empty backlog, up to the table that is saved:
  chunks, pool, results.
\<close>

definition scrape_cycle ::
  "world \<Rightarrow> string \<Rightarrow> string \<Rightarrow> int \<Rightarrow> nat \<Rightarrow> frame \<Rightarrow> nat list \<Rightarrow> error + (frame \<times> event list)" where
  "scrape_cycle w fed t n_workers cycle ath_age idx_list =
     (case chunks_of idx_list n_workers of
        Inl e \<Rightarrow> Inl e
      | Inr chunks \<Rightarrow>
          (case run_pool w cycle fed n_workers ath_age chunks of
             Inl e \<Rightarrow> Inl e
           | Inr (cycle_results, evs) \<Rightarrow>
               (case col_index (columns ath_age) t of
                  None \<Rightarrow> Inl KeyError
                | Some ti \<Rightarrow>
                    (let (saved, evs') = apply_results ti cycle_results ath_age
                     in Inr (saved, evs @ evs')))))"

text \<open>
  \<^verbatim>\<open>
  for cycle in range(1, 6):
      ... idx_list ...
      if not idx_list:
          print(f"All target data captured for {federation} by cycle {cycle}.")
          break
      print(f"Cycle {cycle}: Scraping {len(idx_list)} entries for {federation}...")
      ...
      ath_age.to_csv(csv_path, index=False)
      print(f"Cycle {cycle} complete. Data saved.")
  \<close>
  The loop runs over the list of cycle numbers. Its result is the log of effects and
  either the error the run raised or the table it ended with. The log of a run that
  raises ends with the message of the cycle that raised: the effects of the workers of
  that cycle are not recorded.
\<close>

fun cycle_loop ::
  "world \<Rightarrow> string \<Rightarrow> string \<Rightarrow> int \<Rightarrow> nat list \<Rightarrow> frame \<Rightarrow> event list \<times> (error + frame)" where
  "cycle_loop w fed t n_workers [] ath_age = ([], Inr ath_age)"
| "cycle_loop w fed t n_workers (cycle # rest) ath_age =
     (case backlog ath_age t of
        Inl e \<Rightarrow> ([], Inl e)
      | Inr idx_list \<Rightarrow>
          if idx_list = [] then ([PrintAllCaptured cycle], Inr ath_age)
          else (case scrape_cycle w fed t n_workers cycle ath_age idx_list of
                  Inl e \<Rightarrow> ([PrintScraping cycle (length idx_list)], Inl e)
                | Inr (saved, evs) \<Rightarrow>
                    (let (log, r) = cycle_loop w fed t n_workers rest saved
                     in (PrintScraping cycle (length idx_list) # evs @
                           [ToCsv saved, PrintComplete cycle] @ log, r))))"

text \<open>
  \<^verbatim>\<open>run_scraping_cycle(federation, n_workers=10)\<close>: without the file the run reports and
  returns; otherwise today's column is added if it is missing and the cycles run.
\<close>

definition run_scraping_cycle :: "world \<Rightarrow> string \<Rightarrow> int \<Rightarrow> event list \<times> (error + frame option)" where
  "run_scraping_cycle w fed n_workers =
     (case csv w of
        None \<Rightarrow> ([PrintNotFound], Inr None)
      | Some ath_age \<Rightarrow>
          (let t = today_str (today w);
               (log, r) = cycle_loop w fed t n_workers [1 ..< 6] (ensure_today ath_age t)
           in (log, map_sum id Some r)))"

section \<open>Reading the log\<close>

text \<open>
  What the properties below read off a log: the tables saved, the cycles that
  announced their scraping and the cycles that completed, the athlete ids whose page
  was loaded, and the athlete ids reported as deleted.
\<close>

fun saved_tables :: "event list \<Rightarrow> frame list" where
  "saved_tables [] = []"
| "saved_tables (ToCsv df # es) = df # saved_tables es"
| "saved_tables (_ # es) = saved_tables es"

fun scraped_cycles :: "event list \<Rightarrow> nat list" where
  "scraped_cycles [] = []"
| "scraped_cycles (PrintScraping cycle n # es) = cycle # scraped_cycles es"
| "scraped_cycles (_ # es) = scraped_cycles es"

fun completed_cycles :: "event list \<Rightarrow> nat list" where
  "completed_cycles [] = []"
| "completed_cycles (PrintComplete cycle # es) = cycle # completed_cycles es"
| "completed_cycles (_ # es) = completed_cycles es"

fun loaded_ids :: "event list \<Rightarrow> int list" where
  "loaded_ids [] = []"
| "loaded_ids (DriverGet fed aid # es) = aid # loaded_ids es"
| "loaded_ids (_ # es) = loaded_ids es"

fun deleted_ids :: "event list \<Rightarrow> int list" where
  "deleted_ids [] = []"
| "deleted_ids (PrintDeleted fed aid # es) = aid # deleted_ids es"
| "deleted_ids (_ # es) = deleted_ids es"

text \<open>The column \<^verbatim>\<open>ath_age["ath_id"]\<close> of a table that has one.\<close>

definition ath_ids :: "frame \<Rightarrow> pyval list" where
  "ath_ids ath_age =
     (case col_index (columns ath_age) ''ath_id'' of
        None \<Rightarrow> []
      | Some ci \<Rightarrow> map (\<lambda>r. r ! ci) (rows ath_age))"

text \<open>
  What the worker does for one row of its chunk: nothing for a row without athlete id,
  \<^verbatim>\<open>get_age_with_retry\<close> with the default three tries otherwise.
\<close>

definition fetch_row :: "(nat \<Rightarrow> nat \<Rightarrow> page) \<Rightarrow> string \<Rightarrow> pyval list \<Rightarrow> nat \<Rightarrow> pyval \<times> event list" where
  "fetch_row driver fed series ridx =
     (case series ! ridx of
        Num aid \<Rightarrow> get_age_with_retry (driver ridx) fed aid 3
      | _ \<Rightarrow> (NaN, []))"

text \<open>
  The events of a pool over a list of chunks: for each chunk the events of its rows, and
  then the quit of its browser.
\<close>

definition pool_events :: "(nat \<Rightarrow> nat \<Rightarrow> page) \<Rightarrow> string \<Rightarrow> pyval list \<Rightarrow> nat list list \<Rightarrow> event list" where
  "pool_events driver fed series chunks =
     concat (map (\<lambda>ch. concat (map (\<lambda>i. snd (fetch_row driver fed series i)) ch) @ [DriverQuit])
               chunks)"

text \<open>
  Three readings of a log that follow a deleted profile through it: after the report of
  a deleted profile its page is not loaded again; every table saved after the report is
  without the athlete id; and a table is saved after the report.
\<close>

fun no_refetch :: "event list \<Rightarrow> bool" where
  "no_refetch [] = True"
| "no_refetch (PrintDeleted fed aid # es) = (aid \<notin> set (loaded_ids es) \<and> no_refetch es)"
| "no_refetch (_ # es) = no_refetch es"

fun purged :: "event list \<Rightarrow> bool" where
  "purged [] = True"
| "purged (PrintDeleted fed aid # es) =
     ((\<forall>df \<in> set (saved_tables es). Num aid \<notin> set (ath_ids df)) \<and> purged es)"
| "purged (_ # es) = purged es"

fun save_follows :: "event list \<Rightarrow> bool" where
  "save_follows [] = True"
| "save_follows (PrintDeleted fed aid # es) = (saved_tables es \<noteq> [] \<and> save_follows es)"
| "save_follows (_ # es) = save_follows es"

text \<open>The events of the workers and of the merge, as opposed to those of the cycle loop.\<close>

fun inner :: "event \<Rightarrow> bool" where
  "inner (ToCsv df) = False"
| "inner (PrintScraping c n) = False"
| "inner (PrintComplete c) = False"
| "inner (PrintAllCaptured c) = False"
| "inner _ = True"

text \<open>The three kinds of value that \<^verbatim>\<open>get_age_with_retry\<close> is meant to return.\<close>

definition outcome_ok :: "pyval \<Rightarrow> bool" where
  "outcome_ok v = (v = Str ''DELETED'' \<or> v = NaN \<or> (\<exists>a. v = Num a \<and> 3 \<le> a \<and> a \<le> 200))"

section \<open>Notions of the specification\<close>

text \<open>
  A failed try, in the specification's words: a try that is not the detection of a
  deleted profile and does not yield a value that parses as an integer within
  \<open>[3, 200]\<close>. This covers the tries in which the page load, the check for the popup or
  reading the page source raises.
\<close>

definition failed_try :: "page \<Rightarrow> bool" where
  "failed_try p =
     (case p of
        Toast \<Rightarrow> False
      | Html h \<Rightarrow>
          (let age = extract_first pat_age_compiled h (Some py_int)
           in \<not> (\<not> isna age \<and> in_range age))
      | _ \<Rightarrow> True)"

text \<open>
  Chunks of near-equal size, in the specification's words: the largest chunk has at
  most one element more than the smallest.
\<close>

definition near_equal :: "nat list list \<Rightarrow> bool" where
  "near_equal chunks = (Max (set (map length chunks)) - Min (set (map length chunks)) \<le> 1)"

text \<open>
  The backlog in the specification's words: the rows whose value for today is absent and
  whose most recent non-absent value among the date columns does not equal the expected
  value.
\<close>

definition latest :: "pyval list \<Rightarrow> pyval" where
  "latest cells = (case filter (\<lambda>c. \<not> isna c) cells of [] \<Rightarrow> NaN | c # cs \<Rightarrow> last (c # cs))"

definition spec_backlog :: "frame \<Rightarrow> string \<Rightarrow> nat list" where
  "spec_backlog ath_age t =
     (case col_index (columns ath_age) t of
        None \<Rightarrow> []
      | Some ti \<Rightarrow>
          filter (\<lambda>i. isna (rows ath_age ! i ! ti) \<and>
                       \<not> py_eq (rows ath_age ! i ! 2) (latest (drop 3 (rows ath_age ! i))))
            [0 ..< length (rows ath_age)])"

section \<open>Example tables\<close>

text \<open>
  A table whose only row has reached its expected age 34 on an earlier day and shows 33
  on the latest one.
\<close>

definition stale_store :: frame where
  "stale_store =
     \<lparr>columns = [''ath_id'', ''name'', ''age'', ''01_01'', ''01_02'', ''11_04''],
      rows = [[Num 1, NaN, Num 34, Num 34, Num 33, NaN]]\<rparr>"

text \<open>
  The scenario of the specification: three rows, the first with its expected age
  already observed, the second a deleted profile, the third showing the age 41.
\<close>

definition demo_store :: frame where
  "demo_store =
     \<lparr>columns = [''ath_id'', ''name'', ''age'', ''11_03''],
      rows = [[Num 10, NaN, Num 34, Num 34], [Num 11, NaN, Num 20, NaN],
              [Num 12, NaN, Num 40, Num 39]]\<rparr>"

definition demo_world :: world where
  "demo_world =
     \<lparr>today = \<lparr>month = 11, day = 4\<rparr>,
      csv = Some demo_store,
      chrome_starts = (\<lambda>cycle j. True),
      browser = (\<lambda>cycle ridx attempt. if ridx = 1 then Toast else Html ''Age: 41'')\<rparr>"

section \<open>Properties of \<^verbatim>\<open>get_age_with_retry\<close>\<close>

text \<open>
  C5. When the first try shows the popup of a deleted profile, the function returns
  \<^verbatim>\<open>"DELETED"\<close> whatever the number of tries allowed (there is a first try as soon as
  \<open>max_tries\<close> is at least 1): it loads the page once, waits the five seconds, and
  neither loads the page again nor calls \<^verbatim>\<open>extract_first\<close>.
\<close>

theorem deleted_short_circuit:
  assumes "1 \<le> max_tries" and "driver 1 = Toast"
  shows "get_age_with_retry driver fed aid max_tries =
     (Str ''DELETED'', [DriverGet fed aid, HasErrorToast, PrintDeleted fed aid, Sleep 5])"
  using assms by (simp add: get_age_with_retry_def upt_conv_Cons)

theorem deleted_short_circuit_witness:
  "get_age_with_retry (\<lambda>t. if t = 1 then Toast else Html ''Age: 34'') ''ifsc'' 7 3 =
     (Str ''DELETED'', [DriverGet ''ifsc'' 7, HasErrorToast, PrintDeleted ''ifsc'' 7, Sleep 5])"
  using deleted_short_circuit [of 3 "\<lambda>t. if t = 1 then Toast else Html ''Age: 34''" "''ifsc''" 7]
  by simp

lemma retry_loop_failed:
  "failed_try (driver t) \<Longrightarrow>
   fst (retry_loop driver fed aid (t # ts)) = fst (retry_loop driver fed aid ts)"
  by (cases "driver t") (auto simp add: failed_try_def split_def Let_def)

lemma retry_loop_found:
  "driver t = Html h \<Longrightarrow> extract_first pat_age_compiled h (Some py_int) = Num v \<Longrightarrow>
   3 \<le> v \<Longrightarrow> v \<le> 200 \<Longrightarrow> fst (retry_loop driver fed aid (t # ts)) = Num v"
  by simp

lemma three_tries: "[1 ..< nat (3 + 1)] = [1, 2, 3]"
  by (simp add: upt_conv_Cons)

text \<open>
  C6. With three tries allowed: when tries 1 and 2 fail and try 3 reads a page whose
  extracted value \<open>v\<close> lies in \<open>[3, 200]\<close>, the result is \<open>v\<close>; when all three tries fail,
  the result is \<^verbatim>\<open>NaN\<close>. A try that raises is a failed try; the function itself has
  no way to raise, its result is always a value.
\<close>

theorem retry_budget:
  "(failed_try (driver 1) \<and> failed_try (driver 2) \<and> driver 3 = Html h \<and>
      extract_first pat_age_compiled h (Some py_int) = Num v \<and> 3 \<le> v \<and> v \<le> 200
      \<longrightarrow> fst (get_age_with_retry driver fed aid 3) = Num v) \<and>
   (failed_try (driver 1) \<and> failed_try (driver 2) \<and> failed_try (driver 3)
      \<longrightarrow> fst (get_age_with_retry driver fed aid 3) = NaN)"
  unfolding get_age_with_retry_def three_tries
  by (simp add: retry_loop_failed retry_loop_found del: retry_loop.simps(2))

theorem retry_budget_witness:
  "fst (get_age_with_retry
          (\<lambda>t. if t = 1 then GetFails else if t = 2 then Html ''Age: 2'' else Html ''Age: 34'')
          ''ifsc'' 7 3) = Num 34 \<and>
   fst (get_age_with_retry
          (\<lambda>t. if t = 1 then ToastFails else if t = 2 then SourceFails else Html ''Age: 201'')
          ''ifsc'' 7 3) = NaN"
  using retry_budget [of "\<lambda>t. if t = 1 then GetFails else if t = 2 then Html ''Age: 2'' else Html ''Age: 34''"
          "''Age: 34''" 34 "''ifsc''" 7]
        retry_budget [of "\<lambda>t. if t = 1 then ToastFails else if t = 2 then SourceFails else Html ''Age: 201''"
          "''Age: 34''" 34 "''ifsc''" 7]
  by (simp add: failed_try_def extract_first_def py_int_def is_digit_def is_space_def digit_val_def)

section \<open>Properties of the chunks\<close>

lemma ceil_mult_ge:
  assumes "0 < cs"
  shows "n \<le> ((n + cs - 1) div cs) * (cs::nat)"
proof -
  have "(n + cs - 1) div cs * cs + (n + cs - 1) mod cs = n + cs - 1"
    by simp
  moreover have "(n + cs - 1) mod cs < cs"
    using assms by simp
  ultimately show ?thesis
    by arith
qed

lemma ceil_pos: "0 < w \<Longrightarrow> 0 < n \<Longrightarrow> 0 < (n + w - 1) div (w::nat)"
  by (simp add: div_greater_zero_iff)

lemma ceil_pred_lt:
  assumes "0 < cs" and "0 < n"
  shows "((n + cs - 1) div cs - 1) * cs < (n::nat)"
proof -
  define q where "q = (n + cs - 1) div cs"
  have "q * cs \<le> n + cs - 1"
    unfolding q_def by simp
  moreover have "(q - 1) * cs = q * cs - cs"
    by (simp add: diff_mult_distrib)
  ultimately show ?thesis
    using assms unfolding q_def by arith
qed

lemma ceil_ceil_le:
  assumes "0 < w" and "0 < n"
  shows "(n + ((n + w - 1) div w) - 1) div ((n + w - 1) div w) \<le> (w::nat)"
proof -
  define cs where "cs = (n + w - 1) div w"
  have cs: "0 < cs"
    unfolding cs_def using assms by (rule ceil_pos)
  have "n \<le> cs * w"
    unfolding cs_def using assms(1) by (rule ceil_mult_ge)
  then have "n + cs - 1 < Suc w * cs"
    using cs by (simp add: mult.commute)
  then have "(n + cs - 1) div cs < Suc w"
    by (rule less_mult_imp_div_less)
  then show ?thesis
    unfolding cs_def by simp
qed

lemma concat_chunks:
  "concat (map (\<lambda>k. take cs (drop k xs)) (map (\<lambda>j. j * cs) [0 ..< m])) = take (m * cs) xs"
proof (induction m)
  case 0
  show ?case by simp
next
  case (Suc m)
  have "concat (map (\<lambda>k. take cs (drop k xs)) (map (\<lambda>j. j * cs) [0 ..< Suc m])) =
        concat (map (\<lambda>k. take cs (drop k xs)) (map (\<lambda>j. j * cs) [0 ..< m])) @
          take cs (drop (m * cs) xs)"
    by simp
  also have "\<dots> = take (m * cs) xs @ take cs (drop (m * cs) xs)"
    using Suc by simp
  also have "\<dots> = take (m * cs + cs) xs"
    by (simp add: take_add)
  finally show ?case
    by (simp add: add.commute)
qed

lemma chunks_of_Inr:
  assumes "idx_list \<noteq> []"
  shows "chunks_of idx_list n_workers =
     Inr (map (\<lambda>k. take (chunk_size (length idx_list) n_workers) (drop k idx_list))
            (range_step (length idx_list) (chunk_size (length idx_list) n_workers)))"
    and "0 < chunk_size (length idx_list) n_workers"
proof -
  show "0 < chunk_size (length idx_list) n_workers"
    using assms unfolding chunk_size_def Let_def by (intro ceil_pos) simp_all
  then show "chunks_of idx_list n_workers =
     Inr (map (\<lambda>k. take (chunk_size (length idx_list) n_workers) (drop k idx_list))
            (range_step (length idx_list) (chunk_size (length idx_list) n_workers)))"
    by (simp add: chunks_of_def Let_def)
qed

lemma concat_range_step:
  assumes "0 < cs"
  shows "concat (map (\<lambda>k. take cs (drop k xs)) (range_step (length xs) cs)) = xs"
  unfolding range_step_def concat_chunks
  using ceil_mult_ge [OF assms, of "length xs"] by simp

lemma length_range_step: "length (range_step n cs) = (n + cs - 1) div cs"
  by (simp add: range_step_def)

lemma chunk_length:
  assumes "0 < cs" and "j < (length xs + cs - 1) div cs"
  shows "length (map (\<lambda>k. take cs (drop k xs)) (range_step (length xs) cs) ! j) =
         (if Suc j < (length xs + cs - 1) div cs then cs else length xs - j * cs)"
    and "0 < length xs - j * cs"
    and "length xs - j * cs \<le> cs \<or> Suc j < (length xs + cs - 1) div cs"
proof -
  define m where "m = (length xs + cs - 1) div cs"
  have n: "0 < length xs"
    using assms by (cases xs) simp_all
  have lt: "(m - 1) * cs < length xs"
    unfolding m_def using assms(1) n by (rule ceil_pred_lt)
  have ge: "length xs \<le> m * cs"
    unfolding m_def using assms(1) by (rule ceil_mult_ge)
  have j: "j \<le> m - 1"
    using assms(2) unfolding m_def by simp
  then have "j * cs \<le> (m - 1) * cs"
    by (rule mult_le_mono1)
  with lt show pos: "0 < length xs - j * cs"
    by arith
  have full: "cs \<le> length xs - j * cs" if "Suc j < m"
  proof -
    from that have "Suc j \<le> m - 1" by simp
    then have "Suc j * cs \<le> (m - 1) * cs" by (rule mult_le_mono1)
    with lt show ?thesis by (simp add: less_imp_le)
  qed
  have last: "length xs - j * cs \<le> cs" if "\<not> Suc j < m"
  proof -
    from that j assms(2) have "Suc j = m" unfolding m_def by simp
    with ge show ?thesis by auto
  qed
  from last show "length xs - j * cs \<le> cs \<or> Suc j < (length xs + cs - 1) div cs"
    unfolding m_def by blast
  have "map (\<lambda>k. take cs (drop k xs)) (range_step (length xs) cs) ! j = take cs (drop (j * cs) xs)"
    using assms(2) by (simp add: range_step_def)
  then show "length (map (\<lambda>k. take cs (drop k xs)) (range_step (length xs) cs) ! j) =
         (if Suc j < (length xs + cs - 1) div cs then cs else length xs - j * cs)"
    using full last unfolding m_def by (auto simp add: min_def)
qed

text \<open>
  C2, as the code has it. The chunks of a non-empty backlog, concatenated, are the
  backlog itself, so every index is in exactly one chunk, once. There are at most
  \<open>max 1 n_workers\<close> chunks, none is empty, and every chunk but the last has exactly
  \<open>ceil (N / max 1 n_workers)\<close> elements; the last one has at most that many.
\<close>

theorem chunks_cover:
  assumes "idx_list \<noteq> []"
  shows "\<exists>chunks. chunks_of idx_list n_workers = Inr chunks \<and> concat chunks = idx_list \<and>
           chunks \<noteq> [] \<and> length chunks \<le> nat (max 1 n_workers) \<and>
           (\<forall>c \<in> set (butlast chunks). length c = chunk_size (length idx_list) n_workers) \<and>
           0 < length (last chunks) \<and>
           length (last chunks) \<le> chunk_size (length idx_list) n_workers"
proof -
  define cs where "cs = chunk_size (length idx_list) n_workers"
  define chunks where
    "chunks = map (\<lambda>k. take cs (drop k idx_list)) (range_step (length idx_list) cs)"
  define m where "m = (length idx_list + cs - 1) div cs"
  have cs: "0 < cs" and eq: "chunks_of idx_list n_workers = Inr chunks"
    unfolding cs_def chunks_def using chunks_of_Inr [OF assms] by simp_all
  have n: "0 < length idx_list"
    using assms by simp
  have len: "length chunks = m"
    by (simp add: chunks_def m_def length_range_step)
  have m: "0 < m"
    unfolding m_def using cs n by (rule ceil_pos)
  have cover: "concat chunks = idx_list"
    unfolding chunks_def using cs by (rule concat_range_step)
  have "m \<le> nat (max 1 n_workers)"
    unfolding m_def cs_def chunk_size_def Let_def using n by (intro ceil_ceil_le) simp_all
  with len have count: "length chunks \<le> nat (max 1 n_workers)"
    by simp
  have nth: "length (chunks ! j) = (if Suc j < m then cs else length idx_list - j * cs)"
    and pos: "0 < length idx_list - j * cs"
    and le: "length idx_list - j * cs \<le> cs \<or> Suc j < m" if "j < m" for j
    using chunk_length [OF cs, of j idx_list] that unfolding chunks_def m_def by simp_all
  have full: "\<forall>c \<in> set (butlast chunks). length c = cs"
  proof
    fix c
    assume "c \<in> set (butlast chunks)"
    then obtain j where j: "j < length (butlast chunks)" and c: "c = butlast chunks ! j"
      by (auto simp add: in_set_conv_nth)
    from j len have "Suc j < m" by simp
    moreover from j c have "c = chunks ! j" by (simp add: nth_butlast)
    ultimately show "length c = cs"
      using nth [of j] by simp
  qed
  have ne: "chunks \<noteq> []"
    using len m by auto
  have lastc: "last chunks = chunks ! (m - 1)"
    using len last_conv_nth [OF ne] by simp
  have "length (last chunks) = length idx_list - (m - 1) * cs"
    using nth [of "m - 1"] m lastc by simp
  moreover have "0 < length idx_list - (m - 1) * cs" "length idx_list - (m - 1) * cs \<le> cs"
    using pos [of "m - 1"] le [of "m - 1"] m by simp_all
  ultimately have "0 < length (last chunks)" "length (last chunks) \<le> cs"
    by simp_all
  with eq cover count full len m show ?thesis
    unfolding cs_def by auto
qed

theorem chunks_cover_witness:
  "chunks_of [0, 1, 2, 3, 4, 5, 6, 7, 8, 9] 4 = Inr [[0, 1, 2], [3, 4, 5], [6, 7, 8], [9]] \<and>
   chunk_size (length [0, 1, 2, 3, 4, 5, 6, 7, 8, 9 :: nat]) 4 = 3"
  using chunks_cover [of "[0, 1, 2, 3, 4, 5, 6, 7, 8, 9]" 4]
  by (simp add: chunks_of_def chunk_size_def range_step_def upt_conv_Cons)

text \<open>
  C2, as the specification states it, fails: ten indices for four workers are cut into
  chunks of three, three, three and one.
\<close>

theorem chunks_near_equal_counterexample:
  "chunks_of [0, 1, 2, 3, 4, 5, 6, 7, 8, 9] 4 = Inr [[0, 1, 2], [3, 4, 5], [6, 7, 8], [9]] \<and>
   \<not> near_equal [[0, 1, 2], [3, 4, 5], [6, 7, 8], [9]]"
  by (simp add: chunks_of_def chunk_size_def range_step_def upt_conv_Cons near_equal_def)

section \<open>Properties of the backlog\<close>

lemma py_eq_Num: "py_eq x (Num m) \<longleftrightarrow> x = Num m"
  by (cases x) auto

lemma py_eq_NaN: "\<not> py_eq x NaN"
  by (cases x) auto

lemma fold_max_Max: "fold max as (a::int) = Max (set (a # as))"
  using Max.set_eq_fold [of a as] by simp

lemma row_max_Inr:
  assumes "row_max cells = Inr m"
  shows "py_eq x m \<longleftrightarrow>
         (\<exists>v. x = Num v \<and> v \<in> set (nums cells) \<and> (\<forall>u \<in> set (nums cells). u \<le> v))"
proof (cases "nums cells")
  case Nil
  with assms have "m = NaN"
    by (simp add: row_max_def split: if_splits)
  with Nil show ?thesis
    by (simp add: py_eq_NaN)
next
  case (Cons a as)
  with assms have m: "m = Num (Max (set (nums cells)))"
    by (simp add: row_max_def fold_max_Max split: if_splits)
  have fin: "finite (set (nums cells))" and ne: "set (nums cells) \<noteq> {}"
    using Cons by simp_all
  show ?thesis
  proof
    assume "py_eq x m"
    then have "x = Num (Max (set (nums cells)))"
      by (simp add: m py_eq_Num)
    then show "\<exists>v. x = Num v \<and> v \<in> set (nums cells) \<and> (\<forall>u \<in> set (nums cells). u \<le> v)"
      using Max_in [OF fin ne] Max_ge [OF fin] by blast
  next
    assume "\<exists>v. x = Num v \<and> v \<in> set (nums cells) \<and> (\<forall>u \<in> set (nums cells). u \<le> v)"
    then obtain v where x: "x = Num v"
      and v: "v \<in> set (nums cells)" "\<forall>u \<in> set (nums cells). u \<le> v"
      by blast
    from v have "Max (set (nums cells)) = v"
      using fin by (intro Max_eqI) auto
    with x show "py_eq x m"
      by (simp add: m)
  qed
qed

lemma row_max_defined: "\<not> list_ex is_text cells \<Longrightarrow> \<exists>m. row_max cells = Inr m"
  by (simp add: row_max_def split: list.splits)

lemma row_selected_Inr:
  assumes "row_selected ti r = Inr b"
  shows "b \<longleftrightarrow> isna (r ! ti) \<and>
           \<not> (\<exists>v. r ! 2 = Num v \<and> v \<in> set (nums (drop 3 r)) \<and>
                  (\<forall>u \<in> set (nums (drop 3 r)). u \<le> v))"
proof -
  from assms obtain m where m: "row_max (drop 3 r) = Inr m"
    and b: "b = (\<not> py_eq (r ! 2) m \<and> isna (r ! ti))"
    by (auto simp add: row_selected_def split: sum.splits)
  show ?thesis
    unfolding b row_max_Inr [OF m] by blast
qed

lemma row_selected_defined:
  "\<not> list_ex is_text (drop 3 r) \<Longrightarrow> \<exists>b. row_selected ti r = Inr b"
  using row_max_defined [of "drop 3 r"] by (auto simp add: row_selected_def)

lemma select_rows_Inr:
  assumes "select_rows ti i rs = Inr idx"
  shows "idx = map (\<lambda>k. i + k)
                 (filter (\<lambda>k. row_selected ti (rs ! k) = Inr True) [0 ..< length rs])"
  using assms
proof (induction rs arbitrary: i idx)
  case Nil
  then show ?case by simp
next
  case (Cons r rs)
  from Cons.prems obtain b idx' where b: "row_selected ti r = Inr b"
    and rest: "select_rows ti (Suc i) rs = Inr idx'"
    and idx: "idx = (if b then i # idx' else idx')"
    by (auto split: sum.splits)
  have upt: "[0 ..< length (r # rs)] = 0 # map Suc [0 ..< length rs]"
    by (simp add: upt_conv_Cons map_Suc_upt del: upt_Suc)
  from Cons.IH [OF rest] b idx show ?case
    unfolding upt by (simp add: filter_map comp_def)
qed

lemma select_rows_defined:
  "(\<forall>r \<in> set rs. \<exists>b. row_selected ti r = Inr b) \<Longrightarrow> \<exists>idx. select_rows ti i rs = Inr idx"
proof (induction rs arbitrary: i)
  case Nil
  show ?case by simp
next
  case (Cons r rs)
  from Cons.prems obtain b where "row_selected ti r = Inr b"
    by auto
  moreover from Cons.prems Cons.IH [of "Suc i"]
  obtain idx where "select_rows ti (Suc i) rs = Inr idx"
    by auto
  ultimately show ?case
    by simp
qed

lemma select_rows_rows:
  "select_rows ti i rs = Inr idx \<Longrightarrow> r \<in> set rs \<Longrightarrow> \<exists>b. row_selected ti r = Inr b"
  by (induction rs arbitrary: i idx) (auto split: sum.splits)

lemma col_index_Some: "name \<in> set cols \<Longrightarrow> \<exists>i. col_index cols name = Some i"
  by (induction cols) auto

lemma col_index_nth: "col_index cols name = Some i \<Longrightarrow> i < length cols \<and> cols ! i = name"
  by (induction cols arbitrary: i) (auto split: if_splits)

text \<open>
  C1, as the code has it. On a table of at least three columns that has today's column
  and no text in its date columns the backlog is computed; and whenever it is computed,
  it lists, in increasing order, exactly the rows whose cell for today is absent and
  whose expected value (the third column) is not the maximum of the numbers in the
  date columns (the fourth column onwards): a row whose expected value is absent, or
  whose date columns hold no number, is in the backlog as soon as today is absent.
\<close>

theorem backlog_max:
  "(3 \<le> length (columns ath_age) \<and> t \<in> set (columns ath_age) \<and>
      (\<forall>r \<in> set (rows ath_age). \<not> list_ex is_text (drop 3 r))
      \<longrightarrow> (\<exists>idx_list. backlog ath_age t = Inr idx_list)) \<and>
   (\<forall>idx_list. backlog ath_age t = Inr idx_list \<longrightarrow>
      (\<exists>ti. col_index (columns ath_age) t = Some ti \<and> sorted_wrt (<) idx_list \<and>
         set idx_list =
           {i. i < length (rows ath_age) \<and> isna (rows ath_age ! i ! ti) \<and>
               \<not> (\<exists>v. rows ath_age ! i ! 2 = Num v \<and>
                      v \<in> set (nums (drop 3 (rows ath_age ! i))) \<and>
                      (\<forall>u \<in> set (nums (drop 3 (rows ath_age ! i))). u \<le> v))}))"
proof (intro conjI impI allI)
  assume a: "3 \<le> length (columns ath_age) \<and> t \<in> set (columns ath_age) \<and>
      (\<forall>r \<in> set (rows ath_age). \<not> list_ex is_text (drop 3 r))"
  then obtain ti where ti: "col_index (columns ath_age) t = Some ti"
    using col_index_Some by blast
  from a have "\<forall>r \<in> set (rows ath_age). \<exists>b. row_selected ti r = Inr b"
    using row_selected_defined by blast
  then obtain idx where "select_rows ti 0 (rows ath_age) = Inr idx"
    using select_rows_defined by blast
  with a ti show "\<exists>idx_list. backlog ath_age t = Inr idx_list"
    by (simp add: backlog_def)
next
  fix idx_list
  assume "backlog ath_age t = Inr idx_list"
  then obtain ti where ti: "col_index (columns ath_age) t = Some ti"
    and sel: "select_rows ti 0 (rows ath_age) = Inr idx_list"
    by (auto simp add: backlog_def split: if_splits option.splits)
  have idx: "idx_list =
      filter (\<lambda>k. row_selected ti (rows ath_age ! k) = Inr True) [0 ..< length (rows ath_age)]"
    using select_rows_Inr [OF sel] by simp
  have sorted: "sorted_wrt (<) idx_list"
    unfolding idx by (intro sorted_wrt_filter) simp
  have "k \<in> set idx_list \<longleftrightarrow>
          k < length (rows ath_age) \<and> isna (rows ath_age ! k ! ti) \<and>
          \<not> (\<exists>v. rows ath_age ! k ! 2 = Num v \<and>
                 v \<in> set (nums (drop 3 (rows ath_age ! k))) \<and>
                 (\<forall>u \<in> set (nums (drop 3 (rows ath_age ! k))). u \<le> v))" for k
  proof (cases "k < length (rows ath_age)")
    case True
    then obtain b where b: "row_selected ti (rows ath_age ! k) = Inr b"
      using select_rows_rows [OF sel, of "rows ath_age ! k"] by auto
    from True have "k \<in> set idx_list \<longleftrightarrow> b"
      unfolding idx using b by simp
    with True show ?thesis
      using row_selected_Inr [OF b] by simp
  next
    case False
    then show ?thesis
      unfolding idx by simp
  qed
  then have "set idx_list =
           {i. i < length (rows ath_age) \<and> isna (rows ath_age ! i ! ti) \<and>
               \<not> (\<exists>v. rows ath_age ! i ! 2 = Num v \<and>
                      v \<in> set (nums (drop 3 (rows ath_age ! i))) \<and>
                      (\<forall>u \<in> set (nums (drop 3 (rows ath_age ! i))). u \<le> v))}"
    by blast
  with ti sorted
  show "\<exists>ti. col_index (columns ath_age) t = Some ti \<and> sorted_wrt (<) idx_list \<and>
         set idx_list =
           {i. i < length (rows ath_age) \<and> isna (rows ath_age ! i ! ti) \<and>
               \<not> (\<exists>v. rows ath_age ! i ! 2 = Num v \<and>
                      v \<in> set (nums (drop 3 (rows ath_age ! i))) \<and>
                      (\<forall>u \<in> set (nums (drop 3 (rows ath_age ! i))). u \<le> v))}"
    by blast
qed

theorem backlog_max_witness:
  "backlog stale_store ''11_04'' = Inr [] \<and>
   backlog (stale_store\<lparr>rows := [[Num 1, NaN, Num 34, Num 35, Num 33, NaN]]\<rparr>) ''11_04'' = Inr [0]"
  using backlog_max [of stale_store "''11_04''"]
    backlog_max [of "stale_store\<lparr>rows := [[Num 1, NaN, Num 34, Num 35, Num 33, NaN]]\<rparr>" "''11_04''"]
  by (simp add: stale_store_def backlog_def row_selected_def row_max_def)

text \<open>
  C1, as the specification states it, fails: the row of \<open>stale_store\<close> has no value for
  today and its most recent value 33 differs from the expected 34, yet the code leaves
  it out of the backlog, because the maximum of its values is 34.
\<close>

theorem backlog_latest_counterexample:
  "backlog stale_store ''11_04'' = Inr [] \<and> spec_backlog stale_store ''11_04'' = [0]"
  by (simp add: stale_store_def backlog_def row_selected_def row_max_def spec_backlog_def latest_def)

section \<open>Properties of the pool and of the merge\<close>

lemma chunks_of_ok: "idx_list \<noteq> [] \<Longrightarrow> \<exists>chunks. chunks_of idx_list n_workers = Inr chunks"
  using chunks_of_Inr(1) by blast

text \<open>
  C3. The specification clamps a worker count of zero or less to one. The code clamps
  it in the chunk size only: the pool is created with the count as given, and the
  executor raises \<^verbatim>\<open>ValueError\<close>. With a non-empty backlog the cycle prints its first
  message and the run ends with the error; nothing is scraped or saved.
\<close>

theorem no_workers_raises:
  assumes "n_workers \<le> 0" and "backlog ath_age t = Inr idx_list" and "idx_list \<noteq> []"
  shows "cycle_loop w fed t n_workers (cycle # rest) ath_age =
           ([PrintScraping cycle (length idx_list)], Inl ValueError)"
proof -
  from assms(3) obtain chunks where "chunks_of idx_list n_workers = Inr chunks"
    using chunks_of_ok by blast
  moreover from assms(1) have "run_pool w cycle fed n_workers ath_age chunks = Inl ValueError"
    by (simp add: run_pool_def)
  ultimately have "scrape_cycle w fed t n_workers cycle ath_age idx_list = Inl ValueError"
    by (simp add: scrape_cycle_def)
  with assms(2,3) show ?thesis
    by simp
qed

theorem no_workers_raises_witness:
  "backlog (ensure_today demo_store ''11_04'') ''11_04'' = Inr [1, 2] \<and>
   cycle_loop demo_world ''ifsc'' ''11_04'' 0 [1, 2, 3, 4, 5] (ensure_today demo_store ''11_04'') =
     ([PrintScraping 1 2], Inl ValueError) \<and>
   snd (cycle_loop demo_world ''ifsc'' ''11_04'' 1 [1, 2, 3, 4, 5]
          (ensure_today demo_store ''11_04'')) =
     Inr \<lparr>columns = [''ath_id'', ''name'', ''age'', ''11_03'', ''11_04''],
          rows = [[Num 10, NaN, Num 34, Num 34, NaN], [Num 12, NaN, Num 40, Num 39, Num 41]]\<rparr>"
proof -
  have b: "backlog (ensure_today demo_store ''11_04'') ''11_04'' = Inr [1, 2]"
    by code_simp
  have "cycle_loop demo_world ''ifsc'' ''11_04'' 0 (1 # [2, 3, 4, 5])
          (ensure_today demo_store ''11_04'') =
          ([PrintScraping 1 (length [1, 2 :: nat])], Inl ValueError)"
    by (rule no_workers_raises [OF _ b]) simp_all
  moreover have "snd (cycle_loop demo_world ''ifsc'' ''11_04'' 1 [1, 2, 3, 4, 5]
                        (ensure_today demo_store ''11_04'')) =
     Inr \<lparr>columns = [''ath_id'', ''name'', ''age'', ''11_03'', ''11_04''],
          rows = [[Num 10, NaN, Num 34, Num 34, NaN], [Num 12, NaN, Num 40, Num 39, Num 41]]\<rparr>"
    by code_simp
  ultimately show ?thesis
    using b by simp
qed

lemma process_results_fold:
  "process_results ti rs (ath_age, rm) =
     (fold (\<lambda>(ridx, age) d. if py_eq age (Str ''DELETED'') then d else loc_set d ridx ti age)
        rs ath_age,
      rm @ map fst (filter (\<lambda>(ridx, age). py_eq age (Str ''DELETED'')) rs))"
  by (induction rs arbitrary: ath_age rm) (auto simp add: split_def)

lemma merge_step_commute:
  assumes "fst x \<noteq> fst y \<or> x = y"
  shows "(\<lambda>(ridx, age) d. if py_eq age (Str ''DELETED'') then d else loc_set d ridx ti age) x \<circ>
         (\<lambda>(ridx, age) d. if py_eq age (Str ''DELETED'') then d else loc_set d ridx ti age) y =
         (\<lambda>(ridx, age) d. if py_eq age (Str ''DELETED'') then d else loc_set d ridx ti age) y \<circ>
         (\<lambda>(ridx, age) d. if py_eq age (Str ''DELETED'') then d else loc_set d ridx ti age) x"
proof (cases "x = y")
  case True
  then show ?thesis by simp
next
  case False
  with assms have ne: "fst x \<noteq> fst y" by simp
  obtain i v j u where x: "x = (i, v)" and y: "y = (j, u)"
    by (cases x, cases y) blast
  from ne have "loc_set (loc_set d j ti u) i ti v = loc_set (loc_set d i ti v) j ti u" for d
    unfolding x y by (simp add: loc_set_def list_update_swap)
  then show ?thesis
    unfolding x y by (simp add: fun_eq_iff)
qed

lemma distinct_fst:
  "distinct (map fst rs) \<Longrightarrow> x \<in> set rs \<Longrightarrow> y \<in> set rs \<Longrightarrow> fst x \<noteq> fst y \<or> x = y"
  by (meson distinct_map inj_onD)

text \<open>
  C9. The results of one cycle carry distinct row indices (each row of the backlog is
  in one chunk, once). Whatever the order in which the chunks, and so the pairs, come
  back, the loop over the results and the removal end with the same table and the same
  message.
\<close>

theorem merge_order_independent:
  assumes "distinct (map fst cycle_results)" and "mset cycle_results = mset cycle_results'"
  shows "apply_results ti cycle_results ath_age = apply_results ti cycle_results' ath_age"
proof -
  let ?f = "\<lambda>(ridx, age) d. if py_eq age (Str ''DELETED'') then d else loc_set d ridx ti age"
  let ?del = "\<lambda>rs. map fst (filter (\<lambda>(ridx, age). py_eq age (Str ''DELETED'')) rs)"
  have "fold ?f cycle_results = fold ?f cycle_results'"
    using assms(2)
  proof (rule fold_multiset_equiv [rotated])
    fix x y
    assume "x \<in> set cycle_results" and "y \<in> set cycle_results"
    with assms(1) have "fst x \<noteq> fst y \<or> x = y"
      by (rule distinct_fst)
    then show "?f x \<circ> ?f y = ?f y \<circ> ?f x"
      by (rule merge_step_commute)
  qed
  moreover have "mset (?del rs) =
      image_mset fst (filter_mset (\<lambda>(ridx, age). py_eq age (Str ''DELETED'')) (mset rs))" for rs
    by simp
  with assms(2) have m: "mset (?del cycle_results) = mset (?del cycle_results')"
    by simp
  then have "set (?del cycle_results) = set (?del cycle_results')"
    and "length (?del cycle_results) = length (?del cycle_results')"
    by (rule mset_eq_setD, rule mset_eq_length)
  moreover from this(2) have "?del cycle_results = [] \<longleftrightarrow> ?del cycle_results' = []"
    by (metis length_0_conv)
  ultimately show ?thesis
    by (simp add: apply_results_def process_results_fold drop_index_def del: length_map)
qed

theorem merge_order_independent_witness:
  "apply_results 4 [(1, Str ''DELETED''), (2, Num 41)] (ensure_today demo_store ''11_04'') =
   apply_results 4 [(2, Num 41), (1, Str ''DELETED'')] (ensure_today demo_store ''11_04'') \<and>
   apply_results 4 [(2, Num 41), (1, Str ''DELETED'')] (ensure_today demo_store ''11_04'') =
     (\<lparr>columns = [''ath_id'', ''name'', ''age'', ''11_03'', ''11_04''],
       rows = [[Num 10, NaN, Num 34, Num 34, NaN], [Num 12, NaN, Num 40, Num 39, Num 41]]\<rparr>,
      [PrintRemoving 1])"
proof -
  have "apply_results 4 [(1, Str ''DELETED''), (2, Num 41)] (ensure_today demo_store ''11_04'') =
        apply_results 4 [(2, Num 41), (1, Str ''DELETED'')] (ensure_today demo_store ''11_04'')"
    by (rule merge_order_independent) simp_all
  moreover
  have "apply_results 4 [(2, Num 41), (1, Str ''DELETED'')] (ensure_today demo_store ''11_04'') =
     (\<lparr>columns = [''ath_id'', ''name'', ''age'', ''11_03'', ''11_04''],
       rows = [[Num 10, NaN, Num 34, Num 34, NaN], [Num 12, NaN, Num 40, Num 39, Num 41]]\<rparr>,
      [PrintRemoving 1])"
    by code_simp
  ultimately show ?thesis
    by simp
qed

section \<open>The log of one call, of one row and of a list of rows\<close>

lemma saved_tables_append: "saved_tables (xs @ ys) = saved_tables xs @ saved_tables ys"
  by (induction xs rule: saved_tables.induct) simp_all

lemma scraped_cycles_append: "scraped_cycles (xs @ ys) = scraped_cycles xs @ scraped_cycles ys"
  by (induction xs rule: scraped_cycles.induct) simp_all

lemma completed_cycles_append: "completed_cycles (xs @ ys) = completed_cycles xs @ completed_cycles ys"
  by (induction xs rule: completed_cycles.induct) simp_all

lemma loaded_ids_append: "loaded_ids (xs @ ys) = loaded_ids xs @ loaded_ids ys"
  by (induction xs rule: loaded_ids.induct) simp_all

lemma deleted_ids_append: "deleted_ids (xs @ ys) = deleted_ids xs @ deleted_ids ys"
  by (induction xs rule: deleted_ids.induct) simp_all

lemma inner_saved: "\<forall>e \<in> set evs. inner e \<Longrightarrow> saved_tables evs = []"
  by (induction evs rule: saved_tables.induct) simp_all

lemma inner_scraped: "\<forall>e \<in> set evs. inner e \<Longrightarrow> scraped_cycles evs = []"
  by (induction evs rule: scraped_cycles.induct) simp_all

lemma inner_completed: "\<forall>e \<in> set evs. inner e \<Longrightarrow> completed_cycles evs = []"
  by (induction evs rule: completed_cycles.induct) simp_all

lemma no_refetch_append:
  "no_refetch (xs @ ys) \<longleftrightarrow>
     no_refetch xs \<and> no_refetch ys \<and> set (deleted_ids xs) \<inter> set (loaded_ids ys) = {}"
  by (induction xs rule: no_refetch.induct) (auto simp add: loaded_ids_append)

lemma purged_append:
  "purged (xs @ ys) \<longleftrightarrow>
     purged xs \<and> purged ys \<and>
     (\<forall>a \<in> set (deleted_ids xs). \<forall>df \<in> set (saved_tables ys). Num a \<notin> set (ath_ids df))"
  by (induction xs rule: purged.induct) (auto simp add: saved_tables_append)

lemma save_follows_append:
  "save_follows ys \<Longrightarrow> saved_tables ys \<noteq> [] \<or> save_follows xs \<Longrightarrow> save_follows (xs @ ys)"
  by (induction xs rule: save_follows.induct) (auto simp add: saved_tables_append)

lemma save_follows_none: "deleted_ids es = [] \<Longrightarrow> save_follows es"
  by (induction es rule: save_follows.induct) simp_all

lemma purged_none: "deleted_ids es = [] \<Longrightarrow> purged es"
  by (induction es rule: purged.induct) simp_all

lemma no_refetch_none: "deleted_ids es = [] \<Longrightarrow> no_refetch es"
  by (induction es rule: no_refetch.induct) simp_all

lemma retry_loop_inner: "\<forall>e \<in> set (snd (retry_loop driver fed aid ts)). inner e"
proof (induction ts)
  case Nil
  show ?case by simp
next
  case (Cons t ts)
  then show ?case
    by (cases "driver t") (simp_all add: split_def Let_def)
qed


lemma retry_loop_step:
  "retry_loop driver fed aid (t # ts) =
     (Str ''DELETED'', [DriverGet fed aid, HasErrorToast, PrintDeleted fed aid, Sleep 5]) \<or>
   (\<exists>v h. retry_loop driver fed aid (t # ts) =
            (Num v, [DriverGet fed aid, HasErrorToast, SleepSettle, PageSource, ExtractFirst h]) \<and>
          3 \<le> v \<and> v \<le> 200 \<and> driver t = Html h \<and>
          extract_first pat_age_compiled h (Some py_int) = Num v) \<or>
   (\<exists>evs1. retry_loop driver fed aid (t # ts) =
            (fst (retry_loop driver fed aid ts), evs1 @ snd (retry_loop driver fed aid ts)) \<and>
          (\<forall>e \<in> set evs1. inner e) \<and> loaded_ids evs1 = [aid] \<and> deleted_ids evs1 = [])"
proof -
  have go_on: ?thesis
    if "retry_loop driver fed aid (t # ts) =
          (fst (retry_loop driver fed aid ts), evs1 @ snd (retry_loop driver fed aid ts))"
      and "\<forall>e \<in> set evs1. inner e" and "loaded_ids evs1 = [aid]" and "deleted_ids evs1 = []"
    for evs1
    using that by blast
  show ?thesis
  proof (cases "driver t")
    case GetFails
    show ?thesis
      by (rule go_on [of "[DriverGet fed aid]"]) (simp_all add: GetFails split_def Let_def)
  next
    case ToastFails
    show ?thesis
      by (rule go_on [of "[DriverGet fed aid, HasErrorToast]"])
         (simp_all add: ToastFails split_def Let_def)
  next
    case Toast
    then show ?thesis by simp
  next
    case SourceFails
    show ?thesis
      by (rule go_on [of "[DriverGet fed aid, HasErrorToast, SleepSettle, PageSource]"])
         (simp_all add: SourceFails split_def Let_def)
  next
    case (Html h)
    let ?here = "[DriverGet fed aid, HasErrorToast, SleepSettle, PageSource, ExtractFirst h]"
    show ?thesis
    proof (cases "extract_first pat_age_compiled h (Some py_int)")
      case NaN
      show ?thesis
        by (rule go_on [of ?here]) (simp_all add: Html NaN split_def Let_def)
    next
      case (Str s)
      show ?thesis
        by (rule go_on [of ?here]) (simp_all add: Html Str split_def Let_def)
    next
      case (Num v)
      show ?thesis
      proof (cases "3 \<le> v \<and> v \<le> 200")
        case True
        with Html Num show ?thesis by simp
      next
        case False
        show ?thesis
          using False by (intro go_on [of ?here]) (auto simp add: Html Num split_def Let_def)
      qed
    qed
  qed
qed

lemma retry_loop_loaded: "set (loaded_ids (snd (retry_loop driver fed aid ts))) \<subseteq> {aid}"
proof (induction ts)
  case Nil
  show ?case by simp
next
  case (Cons t ts)
  then show ?case
    using retry_loop_step [of driver fed aid t ts]
    by (auto simp add: loaded_ids_append simp del: retry_loop.simps)
qed

lemma retry_loop_deleted: "set (deleted_ids (snd (retry_loop driver fed aid ts))) \<subseteq> {aid}"
proof (induction ts)
  case Nil
  show ?case by simp
next
  case (Cons t ts)
  then show ?case
    using retry_loop_step [of driver fed aid t ts]
    by (auto simp add: deleted_ids_append simp del: retry_loop.simps)
qed

lemma retry_loop_no_refetch: "no_refetch (snd (retry_loop driver fed aid ts))"
proof (induction ts)
  case Nil
  show ?case by simp
next
  case (Cons t ts)
  then show ?case
    using retry_loop_step [of driver fed aid t ts]
    by (auto simp add: no_refetch_append no_refetch_none simp del: retry_loop.simps)
qed

lemma retry_loop_sentinel:
  "deleted_ids (snd (retry_loop driver fed aid ts)) \<noteq> [] \<longleftrightarrow>
     fst (retry_loop driver fed aid ts) = Str ''DELETED''"
proof (induction ts)
  case Nil
  show ?case by simp
next
  case (Cons t ts)
  then show ?case
    using retry_loop_step [of driver fed aid t ts]
    by (auto simp add: deleted_ids_append simp del: retry_loop.simps)
qed

lemma retry_loop_outcome: "outcome_ok (fst (retry_loop driver fed aid ts))"
proof (induction ts)
  case Nil
  show ?case by (simp add: outcome_ok_def)
next
  case (Cons t ts)
  then show ?case
    using retry_loop_step [of driver fed aid t ts]
    by (auto simp add: outcome_ok_def simp del: retry_loop.simps)
qed


lemma fetch_row_inner: "\<forall>e \<in> set (snd (fetch_row driver fed series i)). inner e"
  using retry_loop_inner by (cases "series ! i") (simp_all add: fetch_row_def get_age_with_retry_def)

lemma fetch_row_loaded:
  "set (loaded_ids (snd (fetch_row driver fed series i))) \<subseteq> {a. series ! i = Num a}"
  using retry_loop_loaded
  by (cases "series ! i") (simp_all add: fetch_row_def get_age_with_retry_def)

lemma fetch_row_deleted:
  "set (deleted_ids (snd (fetch_row driver fed series i))) \<subseteq> {a. series ! i = Num a}"
  using retry_loop_deleted
  by (cases "series ! i") (simp_all add: fetch_row_def get_age_with_retry_def)

lemma fetch_row_no_refetch: "no_refetch (snd (fetch_row driver fed series i))"
  using retry_loop_no_refetch
  by (cases "series ! i") (simp_all add: fetch_row_def get_age_with_retry_def)

lemma fetch_row_sentinel:
  "deleted_ids (snd (fetch_row driver fed series i)) \<noteq> [] \<longleftrightarrow>
     fst (fetch_row driver fed series i) = Str ''DELETED''"
  using retry_loop_sentinel
  by (cases "series ! i") (simp_all add: fetch_row_def get_age_with_retry_def)

lemma fetch_row_outcome: "outcome_ok (fst (fetch_row driver fed series i))"
  using retry_loop_outcome
  by (cases "series ! i") (simp_all add: fetch_row_def get_age_with_retry_def outcome_ok_def)

lemma chunk_loop_closed:
  assumes "chunk_loop driver fed series idxs = Inr (rs, evs)"
  shows "rs = map (\<lambda>i. (i, fst (fetch_row driver fed series i))) idxs \<and>
         evs = concat (map (\<lambda>i. snd (fetch_row driver fed series i)) idxs)"
  using assms
proof (induction idxs arbitrary: rs evs)
  case Nil
  then show ?case by simp
next
  case (Cons i idxs)
  from Cons.prems have i: "i < length series"
    by (simp split: if_splits)
  from Cons.prems i have nt: "\<not> is_text (series ! i)"
    by (cases "series ! i") simp_all
  from Cons.prems i nt have "\<exists>p. chunk_loop driver fed series idxs = Inr p"
    by (cases "chunk_loop driver fed series idxs"; cases "series ! i")
       (simp_all add: split_def)
  then obtain rs' evs' where rest: "chunk_loop driver fed series idxs = Inr (rs', evs')"
    by force
  from Cons.prems i rest nt
  have "rs = (i, fst (fetch_row driver fed series i)) # rs' \<and>
        evs = snd (fetch_row driver fed series i) @ evs'"
    by (cases "series ! i") (auto simp add: fetch_row_def split_def Let_def)
  with Cons.IH [OF rest] show ?case
    by simp
qed

text \<open>The events of a list of rows, one row after the other.\<close>

lemma rows_inner:
  "\<forall>e \<in> set (concat (map (\<lambda>i. snd (fetch_row driver fed series i)) idxs)). inner e"
  using fetch_row_inner by (induction idxs) auto

lemma rows_loaded:
  "set (loaded_ids (concat (map (\<lambda>i. snd (fetch_row driver fed series i)) idxs))) \<subseteq>
     {a. \<exists>i \<in> set idxs. series ! i = Num a}"
  using fetch_row_loaded [of driver fed series]
  by (induction idxs) (auto simp add: loaded_ids_append)

lemma rows_deleted:
  "set (deleted_ids (concat (map (\<lambda>i. snd (fetch_row driver fed series i)) idxs))) =
     {a. \<exists>i \<in> set idxs. series ! i = Num a \<and> fst (fetch_row driver fed series i) = Str ''DELETED''}"
proof (induction idxs)
  case Nil
  show ?case by simp
next
  case (Cons i idxs)
  have "set (deleted_ids (snd (fetch_row driver fed series i))) =
          {a. series ! i = Num a \<and> fst (fetch_row driver fed series i) = Str ''DELETED''}"
    using fetch_row_deleted [of driver fed series i] fetch_row_sentinel [of driver fed series i]
    by (cases "deleted_ids (snd (fetch_row driver fed series i))") auto
  with Cons show ?case
    by (auto simp add: deleted_ids_append)
qed

lemma chunk_loop_range:
  "chunk_loop driver fed series idxs = Inr (rs, evs) \<Longrightarrow> \<forall>i \<in> set idxs. i < length series"
proof (induction idxs arbitrary: rs evs)
  case Nil
  show ?case by simp
next
  case (Cons i idxs)
  from Cons.prems have i: "i < length series"
    by (simp split: if_splits)
  from Cons.prems i have "\<exists>p. chunk_loop driver fed series idxs = Inr p"
    by (cases "chunk_loop driver fed series idxs"; cases "series ! i")
       (simp_all add: split_def)
  then obtain rs' evs' where "chunk_loop driver fed series idxs = Inr (rs', evs')"
    by force
  with Cons.IH i show ?case
    by simp
qed

lemma set_nums: "set (nums cells) = {v. Num v \<in> set cells}"
  by (induction cells rule: nums.induct) auto

lemma distinct_nums_nth:
  assumes "distinct (nums xs)" and "i < length xs" and "j < length xs"
    and "xs ! i = Num a" and "xs ! j = Num a"
  shows "i = j"
  using assms
proof (induction xs arbitrary: i j)
  case Nil
  then show ?case by simp
next
  case (Cons x xs)
  have mem: "a \<in> set (nums xs)" if "k < length xs" and "xs ! k = Num a" for k
    using that nth_mem [of k xs] by (simp add: set_nums)
  show ?case
  proof (cases i)
    case 0
    show ?thesis
    proof (cases j)
      case 0
      with \<open>i = 0\<close> show ?thesis by simp
    next
      case (Suc j')
      with 0 Cons.prems mem [of j'] show ?thesis by auto
    qed
  next
    case (Suc i')
    show ?thesis
    proof (cases j)
      case 0
      with Suc Cons.prems mem [of i'] show ?thesis by auto
    next
      case (Suc j')
      from Cons.prems(1) have "distinct (nums xs)"
        by (cases x) simp_all
      with Cons.IH [of i' j'] Cons.prems \<open>i = Suc i'\<close> Suc show ?thesis
        by simp
    qed
  qed
qed

text \<open>The events of a pool: for each chunk the events of its rows, then the quit.\<close>

lemma submit_all_closed:
  assumes "submit_all starts driver fed series j chunks = Inr (rs, evs)"
  shows "rs = map (\<lambda>i. (i, fst (fetch_row driver fed series i))) (concat chunks) \<and>
         evs = pool_events driver fed series chunks \<and>
         (\<forall>i \<in> set (concat chunks). i < length series)"
  using assms
proof (induction chunks arbitrary: j rs evs)
  case Nil
  then show ?case by (simp add: pool_events_def)
next
  case (Cons ch chunks)
  from Cons.prems obtain rs1 evs1 where one: "chunk_loop driver fed series ch = Inr (rs1, evs1)"
    by (cases "chunk_loop driver fed series ch")
       (auto simp add: process_chunk_age_def split: if_splits)
  with Cons.prems have "\<exists>p. submit_all starts driver fed series (Suc j) chunks = Inr p"
    by (cases "submit_all starts driver fed series (Suc j) chunks")
       (auto simp add: process_chunk_age_def split: if_splits)
  then obtain rs2 evs2 where rest: "submit_all starts driver fed series (Suc j) chunks = Inr (rs2, evs2)"
    by force
  from Cons.prems one rest have "rs = rs1 @ rs2" and "evs = (evs1 @ [DriverQuit]) @ evs2"
    by (auto simp add: process_chunk_age_def split: if_splits)
  with chunk_loop_closed [OF one] chunk_loop_range [OF one] Cons.IH [OF rest] show ?case
    by (auto simp add: pool_events_def)
qed

lemma rows_no_refetch:
  assumes "distinct idxs" and "\<forall>i \<in> set idxs. i < length series" and "distinct (nums series)"
  shows "no_refetch (concat (map (\<lambda>i. snd (fetch_row driver fed series i)) idxs))"
  using assms(1,2)
proof (induction idxs)
  case Nil
  show ?case by simp
next
  case (Cons i idxs)
  have "a \<notin> set (loaded_ids (concat (map (\<lambda>i. snd (fetch_row driver fed series i)) idxs)))"
    if "a \<in> set (deleted_ids (snd (fetch_row driver fed series i)))" for a
  proof
    assume "a \<in> set (loaded_ids (concat (map (\<lambda>i. snd (fetch_row driver fed series i)) idxs)))"
    then obtain j where j: "j \<in> set idxs" "series ! j = Num a"
      using rows_loaded [of driver fed series idxs] by blast
    from that have "series ! i = Num a"
      using fetch_row_deleted [of driver fed series i] by blast
    with j Cons.prems have "i = j"
      using distinct_nums_nth [OF assms(3), of i j a] by simp
    with j Cons.prems show False by simp
  qed
  with Cons show ?case
    by (auto simp add: no_refetch_append fetch_row_no_refetch)
qed

lemma pool_events_Nil: "pool_events driver fed series [] = []"
  by (simp add: pool_events_def)

lemma pool_events_Cons:
  "pool_events driver fed series (ch # chunks) =
     concat (map (\<lambda>i. snd (fetch_row driver fed series i)) ch) @
       (DriverQuit # pool_events driver fed series chunks)"
  by (simp add: pool_events_def)

lemma pool_inner: "\<forall>e \<in> set (pool_events driver fed series chunks). inner e"
proof (induction chunks)
  case Nil
  show ?case by (simp add: pool_events_Nil)
next
  case (Cons ch chunks)
  with rows_inner [of driver fed series ch] show ?case
    by (auto simp add: pool_events_Cons)
qed

lemma pool_loaded:
  "set (loaded_ids (pool_events driver fed series chunks)) \<subseteq>
     {a. \<exists>i \<in> set (concat chunks). series ! i = Num a}"
proof (induction chunks)
  case Nil
  show ?case by (simp add: pool_events_Nil)
next
  case (Cons ch chunks)
  with rows_loaded [of driver fed series ch] show ?case
    by (simp add: pool_events_Cons loaded_ids_append) blast
qed

lemma pool_deleted:
  "set (deleted_ids (pool_events driver fed series chunks)) =
     {a. \<exists>i \<in> set (concat chunks). series ! i = Num a \<and>
           fst (fetch_row driver fed series i) = Str ''DELETED''}"
proof (induction chunks)
  case Nil
  show ?case by (simp add: pool_events_Nil)
next
  case (Cons ch chunks)
  then show ?case
    by (auto simp add: pool_events_Cons deleted_ids_append rows_deleted)
qed

lemma pool_no_refetch:
  assumes "distinct (concat chunks)" and "\<forall>i \<in> set (concat chunks). i < length series"
    and "distinct (nums series)"
  shows "no_refetch (pool_events driver fed series chunks)"
  using assms(1,2)
proof (induction chunks)
  case Nil
  show ?case by (simp add: pool_events_Nil)
next
  case (Cons ch chunks)
  note split = pool_events_Cons [of driver fed series ch chunks]
  have one: "no_refetch (concat (map (\<lambda>i. snd (fetch_row driver fed series i)) ch))"
    using Cons.prems by (intro rows_no_refetch assms(3)) simp_all
  have rest: "no_refetch (pool_events driver fed series chunks)"
    using Cons by simp
  have "a \<notin> set (loaded_ids (pool_events driver fed series chunks))"
    if "a \<in> set (deleted_ids (concat (map (\<lambda>i. snd (fetch_row driver fed series i)) ch)))" for a
  proof
    assume "a \<in> set (loaded_ids (pool_events driver fed series chunks))"
    then obtain j where j: "j \<in> set (concat chunks)" "series ! j = Num a"
      using pool_loaded [of driver fed series chunks] by blast
    from that obtain i where i: "i \<in> set ch" "series ! i = Num a"
      unfolding rows_deleted by blast
    with j Cons.prems(2) have "i = j"
      using distinct_nums_nth [OF assms(3), of i j a] by auto
    with i j Cons.prems(1) show False by auto
  qed
  with one rest show ?case
    unfolding split by (auto simp add: no_refetch_append)
qed


text \<open>The column of athlete ids through the merge and the removal.\<close>

lemma ath_ids_Some:
  "col_index (columns df) ''ath_id'' = Some ci \<Longrightarrow> ath_ids df = map (\<lambda>r. r ! ci) (rows df)"
  by (simp add: ath_ids_def)

lemma loc_set_columns: "columns (loc_set df i ti v) = columns df"
  by (simp add: loc_set_def)

lemma loc_set_length: "length (rows (loc_set df i ti v)) = length (rows df)"
  by (simp add: loc_set_def)

lemma loc_set_ath_ids:
  assumes "col_index (columns df) ''ath_id'' = Some ci" and "ti \<noteq> ci"
  shows "ath_ids (loc_set df i ti v) = ath_ids df"
proof -
  have "map (\<lambda>r. r ! ci) ((rows df)[i := (rows df ! i)[ti := v]]) = map (\<lambda>r. r ! ci) (rows df)"
  proof (cases "i < length (rows df)")
    case True
    then have "(map (\<lambda>r. r ! ci) (rows df))[i := map (\<lambda>r. r ! ci) (rows df) ! i] =
               map (\<lambda>r. r ! ci) (rows df)"
      by (simp only: list_update_id)
    with True assms(2) show ?thesis
      by (simp add: map_update)
  next
    case False
    then have "length (rows df) \<le> i" by arith
    then have "(rows df)[i := (rows df ! i)[ti := v]] = rows df"
      by (rule list_update_beyond)
    then show ?thesis by (simp only:)
  qed
  with assms(1) show ?thesis
    by (simp add: ath_ids_def loc_set_def)
qed

lemma merge_fold_keeps:
  assumes "col_index (columns df) ''ath_id'' = Some ci" and "ti \<noteq> ci"
  shows "columns (fold (\<lambda>(ridx, age) d. if py_eq age (Str ''DELETED'') then d
                                          else loc_set d ridx ti age) rs df) = columns df \<and>
         ath_ids (fold (\<lambda>(ridx, age) d. if py_eq age (Str ''DELETED'') then d
                                          else loc_set d ridx ti age) rs df) = ath_ids df \<and>
         length (rows (fold (\<lambda>(ridx, age) d. if py_eq age (Str ''DELETED'') then d
                                          else loc_set d ridx ti age) rs df)) = length (rows df)"
  using assms(1)
proof (induction rs arbitrary: df)
  case Nil
  show ?case by simp
next
  case (Cons x rs)
  obtain i v where x: "x = (i, v)" by (cases x)
  show ?case
  proof (cases "py_eq v (Str ''DELETED'')")
    case True
    with Cons x show ?thesis by simp
  next
    case False
    have "col_index (columns (loc_set df i ti v)) ''ath_id'' = Some ci"
      using Cons.prems by (simp add: loc_set_columns)
    from Cons.IH [OF this] False x show ?thesis
      using loc_set_ath_ids [OF Cons.prems assms(2)]
      by (simp add: loc_set_columns loc_set_length)
  qed
qed

lemma nths_none_dropped: "nths xs (- set []) = xs"
  by (simp add: nths_all)

lemma set_nums_nths: "set (nums (nths xs I)) \<subseteq> set (nums xs)"
  using set_nths [of xs I] by (auto simp add: set_nums)

lemma distinct_nums_nths: "distinct (nums xs) \<Longrightarrow> distinct (nums (nths xs I))"
proof (induction xs arbitrary: I)
  case Nil
  show ?case by simp
next
  case (Cons x xs)
  have sub: "set (nums (nths xs {j. Suc j \<in> I})) \<subseteq> set (nums xs)"
    by (rule set_nums_nths)
  from Cons.prems have d: "distinct (nums xs)"
    by (cases x) simp_all
  show ?case
  proof (cases x)
    case (Num a)
    with Cons.prems have "a \<notin> set (nums xs)" by simp
    with sub have "a \<notin> set (nums (nths xs {j. Suc j \<in> I}))" by blast
    with Num Cons.IH [OF d] show ?thesis
      by (simp add: nths_Cons)
  qed (use Cons.IH [OF d] in \<open>simp_all add: nths_Cons\<close>)
qed

lemma removed_id_gone:
  assumes "distinct (nums xs)" and "i < length xs" and "xs ! i = Num a" and "i \<in> set rm"
  shows "Num a \<notin> set (nths xs (- set rm))"
proof
  assume "Num a \<in> set (nths xs (- set rm))"
  then obtain j where "j < length xs" "j \<notin> set rm" "xs ! j = Num a"
    by (auto simp add: set_nths)
  with assms show False
    using distinct_nums_nth [OF assms(1), of i j a] by auto
qed

section \<open>The log of one cycle\<close>

lemma py_eq_Str: "py_eq v (Str s) \<longleftrightarrow> v = Str s"
  by (cases v) auto

lemma apply_results_closed:
  assumes "apply_results ti rs df = (saved, evs')"
  shows "saved = drop_index
            (fold (\<lambda>(ridx, age) d. if py_eq age (Str ''DELETED'') then d
                                    else loc_set d ridx ti age) rs df)
            (map fst (filter (\<lambda>(ridx, age). py_eq age (Str ''DELETED'')) rs))"
    and "\<forall>e \<in> set evs'. inner e" and "loaded_ids evs' = []" and "deleted_ids evs' = []"
proof -
  let ?merged = "fold (\<lambda>(ridx, age) d. if py_eq age (Str ''DELETED'') then d
                                    else loc_set d ridx ti age) rs df"
  let ?rm = "map fst (filter (\<lambda>(ridx, age). py_eq age (Str ''DELETED'')) rs)"
  have none: "drop_index ?merged [] = ?merged"
    by (simp add: drop_index_def nths_all)
  from assms have "(if ?rm \<noteq> [] then (drop_index ?merged ?rm, [PrintRemoving (length ?rm)])
                    else (?merged, [])) = (saved, evs')"
    by (simp add: apply_results_def process_results_fold)
  then have "saved = drop_index ?merged ?rm \<and> (evs' = [] \<or> evs' = [PrintRemoving (length ?rm)])"
    using none by (cases "?rm = []") auto
  then show "saved = drop_index ?merged ?rm" and "\<forall>e \<in> set evs'. inner e"
    and "loaded_ids evs' = []" and "deleted_ids evs' = []"
    by auto
qed

lemma drop_index_ath_ids: "ath_ids (drop_index df rm) = nths (ath_ids df) (- set rm)"
  by (simp add: ath_ids_def drop_index_def nths_map split: option.splits)

lemma drop_index_columns: "columns (drop_index df rm) = columns df"
  by (simp add: drop_index_def)

lemma col_index_differ:
  "col_index cols a = Some i \<Longrightarrow> col_index cols b = Some j \<Longrightarrow> a \<noteq> b \<Longrightarrow> i \<noteq> j"
  using col_index_nth by blast

lemma scrape_cycle_closed:
  assumes "scrape_cycle w fed t nw k df idx = Inr (saved, evs)" and "idx \<noteq> []"
  shows "\<exists>ci ti chunks evs'.
           col_index (columns df) ''ath_id'' = Some ci \<and> col_index (columns df) t = Some ti \<and>
           concat chunks = idx \<and> (\<forall>i \<in> set idx. i < length (rows df)) \<and>
           apply_results ti
             (map (\<lambda>i. (i, fst (fetch_row (browser w k) fed (ath_ids df) i))) idx) df = (saved, evs') \<and>
           evs = pool_events (browser w k) fed (ath_ids df) chunks @ evs'"
proof -
  define chunks where
    "chunks = map (\<lambda>k. take (chunk_size (length idx) nw) (drop k idx))
                (range_step (length idx) (chunk_size (length idx) nw))"
  have ch: "chunks_of idx nw = Inr chunks" and cs: "0 < chunk_size (length idx) nw"
    unfolding chunks_def using chunks_of_Inr [OF assms(2)] by simp_all
  have cover: "concat chunks = idx"
    unfolding chunks_def using cs by (rule concat_range_step)
  from assms(1) ch obtain rs pevs where pool: "run_pool w k fed nw df chunks = Inr (rs, pevs)"
    by (cases "run_pool w k fed nw df chunks") (auto simp add: scrape_cycle_def)
  then obtain ci where ci: "col_index (columns df) ''ath_id'' = Some ci"
    and sub: "submit_all (chrome_starts w k) (browser w k) fed (map (\<lambda>r. r ! ci) (rows df)) 0 chunks =
                Inr (rs, pevs)"
    by (auto simp add: run_pool_def split: if_splits option.splits)
  have ids: "ath_ids df = map (\<lambda>r. r ! ci) (rows df)"
    using ci by (rule ath_ids_Some)
  from submit_all_closed [OF sub] cover
  have rs: "rs = map (\<lambda>i. (i, fst (fetch_row (browser w k) fed (ath_ids df) i))) idx"
    and pevs: "pevs = pool_events (browser w k) fed (ath_ids df) chunks"
    and range: "\<forall>i \<in> set idx. i < length (rows df)"
    by (simp_all add: ids)
  from assms(1) ch pool obtain ti where ti: "col_index (columns df) t = Some ti"
    by (cases "col_index (columns df) t") (auto simp add: scrape_cycle_def)
  obtain s e where ap: "apply_results ti rs df = (s, e)"
    by (cases "apply_results ti rs df")
  with assms(1) ch pool ti have "saved = s" and "evs = pevs @ e"
    by (simp_all add: scrape_cycle_def)
  with ap ci ti cover range rs pevs show ?thesis
    by blast
qed


lemma cycle_facts:
  assumes scrape: "scrape_cycle w fed t nw k df idx = Inr (saved, evs)"
    and ne: "idx \<noteq> []" and dist: "distinct idx" and t: "t \<noteq> ''ath_id''"
    and ids: "distinct (nums (ath_ids df))"
  shows "\<forall>e \<in> set evs. inner e"
    and "set (loaded_ids evs) \<subseteq> {a. Num a \<in> set (ath_ids df)}"
    and "\<forall>a \<in> set (deleted_ids evs). Num a \<notin> set (ath_ids saved)"
    and "no_refetch evs"
    and "columns saved = columns df"
    and "set (ath_ids saved) \<subseteq> set (ath_ids df)"
    and "distinct (nums (ath_ids saved))"
proof -
  let ?out = "\<lambda>i. fst (fetch_row (browser w k) fed (ath_ids df) i)"
  let ?rs = "map (\<lambda>i. (i, ?out i)) idx"
  let ?rm = "map fst (filter (\<lambda>(ridx, age). py_eq age (Str ''DELETED'')) ?rs)"
  from scrape_cycle_closed [OF scrape ne] obtain ci ti chunks evs'
    where ci: "col_index (columns df) ''ath_id'' = Some ci"
      and ti: "col_index (columns df) t = Some ti"
      and cover: "concat chunks = idx"
      and range: "\<forall>i \<in> set idx. i < length (rows df)"
      and ap: "apply_results ti ?rs df = (saved, evs')"
      and evs: "evs = pool_events (browser w k) fed (ath_ids df) chunks @ evs'"
    by blast
  have neq: "ti \<noteq> ci"
    using ti ci t by (rule col_index_differ)
  have len: "length (ath_ids df) = length (rows df)"
    by (simp add: ath_ids_Some [OF ci])
  note closed = apply_results_closed [OF ap]
  note keeps = merge_fold_keeps [OF ci neq, of ?rs]
  have saved_ids: "ath_ids saved = nths (ath_ids df) (- set ?rm)"
    unfolding closed(1) drop_index_ath_ids using keeps by simp
  show "\<forall>e \<in> set evs. inner e"
    unfolding evs using pool_inner [of "browser w k" fed "ath_ids df" chunks] closed(2) by auto
  have loaded: "set (loaded_ids evs) \<subseteq> {a. \<exists>i \<in> set idx. ath_ids df ! i = Num a}"
    unfolding evs using pool_loaded [of "browser w k" fed "ath_ids df" chunks] closed(3) cover
    by (simp add: loaded_ids_append)
  then show "set (loaded_ids evs) \<subseteq> {a. Num a \<in> set (ath_ids df)}"
    using range len nth_mem [of _ "ath_ids df"] by fastforce
  have deleted: "set (deleted_ids evs) =
      {a. \<exists>i \<in> set idx. ath_ids df ! i = Num a \<and> ?out i = Str ''DELETED''}"
    unfolding evs using pool_deleted [of "browser w k" fed "ath_ids df" chunks] closed(4) cover
    by (simp add: deleted_ids_append)
  show "\<forall>a \<in> set (deleted_ids evs). Num a \<notin> set (ath_ids saved)"
  proof
    fix a
    assume "a \<in> set (deleted_ids evs)"
    with deleted obtain i where i: "i \<in> set idx" "ath_ids df ! i = Num a" "?out i = Str ''DELETED''"
      by blast
    then have "i \<in> set ?rm"
      by (force simp add: filter_map comp_def)
    moreover from i range len have "i < length (ath_ids df)"
      by simp
    ultimately show "Num a \<notin> set (ath_ids saved)"
      unfolding saved_ids using i(2) ids by (intro removed_id_gone)
  qed
  have "no_refetch (pool_events (browser w k) fed (ath_ids df) chunks)"
    using dist range len cover ids by (intro pool_no_refetch) simp_all
  then show "no_refetch evs"
    unfolding evs using closed(3,4) by (simp add: no_refetch_append no_refetch_none)
  show "columns saved = columns df"
    unfolding closed(1) drop_index_columns using keeps by simp
  show "set (ath_ids saved) \<subseteq> set (ath_ids df)"
    unfolding saved_ids by (auto simp add: set_nths)
  show "distinct (nums (ath_ids saved))"
    unfolding saved_ids using ids by (rule distinct_nums_nths)
qed

end
